theory Spec2Isabelle
  imports Main "HOL-Library.Word" "HOL-Library.Multiset"
begin

section \<open>Library functions the code calls\<close>

text \<open>
  \<open>fmt.Sprintf("%d", n)\<close>: the decimal rendering of a signed integer, a minus sign
  first when it is negative.
\<close>

definition digit :: "nat \<Rightarrow> char" where
  "digit n = ''0123456789'' ! n"

fun dec_nat :: "nat \<Rightarrow> string" where
  "dec_nat n = (if n < 10 then [digit n] else dec_nat (n div 10) @ [digit (n mod 10)])"

declare dec_nat.simps [simp del]

definition fmt_d :: "int \<Rightarrow> string" where
  "fmt_d i = (if i < 0 then CHR ''-'' # dec_nat (nat (- i)) else dec_nat (nat i))"

text \<open>Reading a decimal numeral back: what a decimal string denotes.\<close>

definition digit_val :: "char \<Rightarrow> nat" where
  "digit_val c = (of_char c :: nat) - 48"

definition read_nat :: "string \<Rightarrow> nat" where
  "read_nat s = foldl (\<lambda>a c. 10 * a + digit_val c) 0 s"

definition read_int :: "string \<Rightarrow> int" where
  "read_int s = (case s of
       [] \<Rightarrow> 0
     | c # cs \<Rightarrow> if c = CHR ''-'' then - int (read_nat cs) else int (read_nat s))"

text \<open>\<open>strings.Contains(s, substr)\<close>: \<open>substr\<close> occurs in \<open>s\<close> as a contiguous block.\<close>

fun contains :: "string \<Rightarrow> string \<Rightarrow> bool" where
  "contains [] substr = (substr = [])"
| "contains (c # s) substr = (take (length substr) (c # s) = substr \<or> contains s substr)"

text \<open>
  \<open>strings.Split(s, "/")\<close> and \<open>strings.Join(parts, "/")\<close>, for a separator of one
  character. Split returns one more part than \<open>s\<close> has separators, so never an empty
  slice (the first branch of the \<open>case\<close> below is never taken).
\<close>

fun Split :: "string \<Rightarrow> char \<Rightarrow> string list" where
  "Split [] sep = [[]]"
| "Split (c # s) sep =
     (if c = sep then [] # Split s sep
      else (case Split s sep of [] \<Rightarrow> [[c]] | w # ws \<Rightarrow> (c # w) # ws))"

fun Join :: "string list \<Rightarrow> char \<Rightarrow> string" where
  "Join [] sep = []"
| "Join [w] sep = w"
| "Join (w # v # ws) sep = w @ sep # Join (v # ws) sep"

text \<open>
  \<open>strings.ToUpper\<close>. The ASCII letters are mapped to their capitals. Of the letters
  outside ASCII, two have an ASCII capital, U+0131 (bytes C4 B1) with capital I and U+017F
  (bytes C5 BF) with capital S; every other one has a capital outside ASCII and is left as
  it is here, so the result differs from Go's at most in bytes from 0x80 on.
\<close>

definition upper_char :: "char \<Rightarrow> char" where
  "upper_char c =
     (case map_of (zip ''abcdefghijklmnopqrstuvwxyz'' ''ABCDEFGHIJKLMNOPQRSTUVWXYZ'') c of
        None \<Rightarrow> c
      | Some u \<Rightarrow> u)"

fun ToUpper :: "string \<Rightarrow> string" where
  "ToUpper [] = []"
| "ToUpper [c] = [upper_char c]"
| "ToUpper (c # d # s) =
     (if c = CHR 0xC4 \<and> d = CHR 0xB1 then CHR ''I'' # ToUpper s
      else if c = CHR 0xC5 \<and> d = CHR 0xBF then CHR ''S'' # ToUpper s
      else upper_char c # ToUpper (d # s))"

section \<open>package loki: the client\<close>

text \<open>
  A Go channel: its buffer, its capacity and whether it has been closed. \<open>make(chan T, n)\<close>
  panics on a negative \<open>n\<close>; a send on a closed channel and a second close panic.
\<close>

record 'a chan =
  buf :: "'a list"
  cap :: nat
  is_closed :: bool

datatype error = Panic string | NotReady

definition make_chan :: "int \<Rightarrow> error + 'a chan" where
  "make_chan n =
     (if n < 0 then Inl (Panic ''makechan: size out of range'')
      else Inr \<lparr>buf = [], cap = nat n, is_closed = False\<rparr>)"

definition close_chan :: "'a chan \<Rightarrow> error + 'a chan" where
  "close_chan ch =
     (if is_closed ch then Inl (Panic ''close of closed channel'')
      else Inr (ch\<lparr>is_closed := True\<rparr>))"

text \<open>
  A send that is one case of a \<open>select\<close> with a \<open>default\<close>: it proceeds when the buffer
  has room, panics on a closed channel, and is not ready otherwise (the select then takes
  its default). The worker, when it waits on the queue, has emptied the buffer first, so a
  waiting receiver never makes a full buffer ready.
\<close>

definition try_send :: "'a chan \<Rightarrow> 'a \<Rightarrow> error + 'a chan" where
  "try_send ch v =
     (if is_closed ch then Inl (Panic ''send on closed channel'')
      else if length (buf ch) < cap ch then Inr (ch\<lparr>buf := buf ch @ [v]\<rparr>)
      else Inl NotReady)"

text \<open>
  \<open>entry\<close>: the timestamp is kept as the 64-bit value its \<open>UnixNano()\<close> returns.
\<close>

record entry =
  Timestamp :: "64 word"
  Message :: string
  Level :: string

record stream =
  Stream :: "string \<rightharpoonup> string"
  Values :: "string list list"

record pushRequest =
  Streams :: "stream list"

text \<open>
  \<open>Config\<close> and \<open>Client\<close>: the client has the fields of the configuration and its two
  channels. \<open>int\<close> and \<open>time.Duration\<close> are 64-bit signed; \<open>HTTPClient\<close> is a pointer,
  \<open>None\<close> when nil, to a client of which only the timeout (in nanoseconds) is kept.
\<close>

record Config =
  URL :: string
  BatchSize :: "64 word"
  BatchWait :: "64 word"
  Labels :: "string \<rightharpoonup> string"
  HTTPClient :: "64 word option"

record Client = Config +
  entriesQueue :: "entry chan"
  done_ch :: "unit chan"

text \<open>
  The running client: the \<open>Client\<close> struct, the worker goroutine's local \<open>batch\<close>, whether
  the worker has returned, whether a tick waits in the ticker's channel, the arguments of
  the calls of \<open>sendBatch\<close> so far, and what was printed.
\<close>

record system =
  client :: Client
  batch :: "entry list"
  returned :: bool
  ticker_C :: bool
  sent :: "entry list list"
  stdout :: "string list"

definition second :: "64 word" where
  "second = 1000000000"

definition NewClient :: "Config \<Rightarrow> error + system" where
  "NewClient config =
     (let config = (if sint (BatchSize config) \<le> 0 then config\<lparr>BatchSize := 100\<rparr> else config);
          config = (if sint (BatchWait config) \<le> 0 then config\<lparr>BatchWait := 1 * second\<rparr> else config);
          config = (if HTTPClient config = None
                    then config\<lparr>HTTPClient := Some (5 * second)\<rparr> else config)
      in case make_chan (sint (BatchSize config * 2)) of
           Inl e \<Rightarrow> Inl e
         | Inr q \<Rightarrow>
             (case make_chan 0 of
                Inl e \<Rightarrow> Inl e
              | Inr d \<Rightarrow>
                  Inr \<lparr>client =
                         \<lparr>URL = URL config, BatchSize = BatchSize config,
                          BatchWait = BatchWait config, Labels = Labels config,
                          HTTPClient = HTTPClient config, entriesQueue = q, done_ch = d\<rparr>,
                       batch = [], returned = False, ticker_C = False, sent = [],
                       stdout = []\<rparr>))"

definition Stop :: "system \<Rightarrow> error + system" where
  "Stop s =
     (case close_chan (done_ch (client s)) of
        Inl e \<Rightarrow> Inl e
      | Inr d \<Rightarrow> Inr (s\<lparr>client := (client s)\<lparr>done_ch := d\<rparr>\<rparr>))"

definition Log :: "64 word \<Rightarrow> string \<Rightarrow> string \<Rightarrow> system \<Rightarrow> error + system" where
  "Log timestamp level message s =
     (case try_send (entriesQueue (client s))
             \<lparr>Timestamp = timestamp, Message = message, Level = level\<rparr> of
        Inr q \<Rightarrow> Inr (s\<lparr>client := (client s)\<lparr>entriesQueue := q\<rparr>\<rparr>)
      | Inl NotReady \<Rightarrow>
          Inr (s\<lparr>stdout := stdout s @
                 [''Loki client queue full, dropping log entry: '' @ message @ [CHR 0x0A]]\<rparr>)
      | Inl (Panic p) \<Rightarrow> Inl (Panic p))"

text \<open>
  \<open>processQueue\<close>: one definition for each case of the loop's \<open>select\<close>. A case is
  \<open>None\<close> when it cannot be taken: the worker has returned, or the case's channel has
  nothing to receive (the queue is never closed, so it has something to receive only when
  its buffer is not empty). Calling \<open>sendBatch\<close> is recorded in \<open>sent\<close>.
\<close>

definition processQueue_done :: "system \<Rightarrow> system option" where
  "processQueue_done s =
     (if returned s \<or> \<not> is_closed (done_ch (client s)) then None
      else Some ((if length (batch s) > 0 then s\<lparr>sent := sent s @ [batch s]\<rparr> else s)
                   \<lparr>returned := True\<rparr>))"

definition processQueue_entry :: "system \<Rightarrow> system option" where
  "processQueue_entry s =
     (if returned s then None
      else case buf (entriesQueue (client s)) of
        [] \<Rightarrow> None
      | e # q \<Rightarrow>
          (let s1 = s\<lparr>client := (client s)\<lparr>entriesQueue := (entriesQueue (client s))\<lparr>buf := q\<rparr>\<rparr>,
                      batch := batch s @ [e]\<rparr>
           in Some (if int (length (batch s1)) \<ge> sint (BatchSize (client s1))
                    then s1\<lparr>sent := sent s1 @ [batch s1], batch := []\<rparr>
                    else s1)))"

definition processQueue_tick :: "system \<Rightarrow> system option" where
  "processQueue_tick s =
     (if returned s \<or> \<not> ticker_C s then None
      else (let s1 = s\<lparr>ticker_C := False\<rparr>
            in Some (if length (batch s1) > 0
                     then s1\<lparr>sent := sent s1 @ [batch s1], batch := []\<rparr>
                     else s1)))"

text \<open>
  What can happen to a running client: a producer calls \<open>Log\<close> or \<open>Stop\<close>, the ticker
  fires (a tick that finds one waiting is dropped), or the worker's \<open>select\<close> takes one of
  its three cases.
\<close>

datatype action =
    Call_Log "64 word" string string
  | Call_Stop
  | Ticker_fires
  | Select_done
  | Select_entry
  | Select_tick

definition of_option :: "'a option \<Rightarrow> error + 'a" where
  "of_option x = (case x of None \<Rightarrow> Inl NotReady | Some y \<Rightarrow> Inr y)"

fun step :: "system \<Rightarrow> action \<Rightarrow> error + system" where
  "step s (Call_Log t l m) = Log t l m s"
| "step s Call_Stop = Stop s"
| "step s Ticker_fires = Inr (s\<lparr>ticker_C := True\<rparr>)"
| "step s Select_done = of_option (processQueue_done s)"
| "step s Select_entry = of_option (processQueue_entry s)"
| "step s Select_tick = of_option (processQueue_tick s)"

fun run :: "system \<Rightarrow> action list \<Rightarrow> error + system" where
  "run s [] = Inr s"
| "run s (a # as) = (case step s a of Inl e \<Rightarrow> Inl e | Inr s' \<Rightarrow> run s' as)"

text \<open>
  \<open>sendBatch\<close>, up to the request body. \<open>entriesByLevel\<close> is the map the first loop
  builds. Go ranges over a map in an order of its own choosing: \<open>range_order m kvs\<close> says
  that \<open>kvs\<close> is one such order, each key of \<open>m\<close> once with its value.
\<close>

definition entriesByLevel :: "entry list \<Rightarrow> (string \<rightharpoonup> entry list)" where
  "entriesByLevel entries =
     foldl (\<lambda>m e. m(Level e \<mapsto> (case m (Level e) of None \<Rightarrow> [] | Some es \<Rightarrow> es) @ [e]))
       Map.empty entries"

definition range_order :: "('k \<rightharpoonup> 'v) \<Rightarrow> ('k \<times> 'v) list \<Rightarrow> bool" where
  "range_order m kvs = (distinct (map fst kvs) \<and> map_of kvs = m)"

definition entry_value :: "entry \<Rightarrow> string list" where
  "entry_value e = [fmt_d (sint (Timestamp e)), Message e]"

definition level_stream :: "Client \<Rightarrow> string \<times> entry list \<Rightarrow> stream" where
  "level_stream c = (\<lambda>(level, levelEntries).
     \<lparr>Stream = (Labels c)(''level'' \<mapsto> level), Values = map entry_value levelEntries\<rparr>)"

definition sendBatch_reqBody :: "Client \<Rightarrow> (string \<times> entry list) list \<Rightarrow> pushRequest" where
  "sendBatch_reqBody c kvs = \<lparr>Streams = map (level_stream c) kvs\<rparr>"

section \<open>package logger: the delivery adapter\<close>

definition Write_level :: "string \<Rightarrow> string" where
  "Write_level p =
     (let level = ''info'' in
      if length p > 0 then
        (if contains p ''debug'' then ''debug''
         else if contains p ''info'' then ''info''
         else if contains p ''warn'' then ''warn''
         else if contains p ''error'' then ''error''
         else if contains p ''fatal'' then ''fatal''
         else level)
      else level)"

text \<open>
  \<open>lokiWriter.Write\<close>: \<open>now\<close> is what \<open>time.Now()\<close> returns; the result is the pair
  \<open>(len(p), nil)\<close> with the client after the call of \<open>Log\<close>.
\<close>

definition Write :: "64 word \<Rightarrow> string \<Rightarrow> system \<Rightarrow> error + (system \<times> nat \<times> string option)" where
  "Write now p s =
     (case Log now (Write_level p) p s of
        Inl e \<Rightarrow> Inl e
      | Inr s' \<Rightarrow> Inr (s', length p, None))"

section \<open>package logger: messages kept with the request's context\<close>

text \<open>
  Modelled from the spec: the declarations the methods of \<open>logger\<close> use are in a file of
  the package that is not among the sources. They are the level constants \<open>err\<close>,
  \<open>debug\<close> and \<open>print\<close>; the struct \<open>LogMessage\<close> (the spec's caller location, severity
  and message; the fields \<open>Level\<close> and \<open>Message\<close> carry a prime here, the names being
  taken by \<open>entry\<close>); the keys \<open>_LogMessages\<close>, \<open>RequestId\<close> and \<open>_SaltKey\<close>; the store
  type \<open>Value\<close> with its methods \<open>Load\<close>, \<open>LoadAndDelete\<close> and \<open>Set\<close>; and \<open>extract\<close>
  (here \<open>extract_ctx\<close>). The spec gives the store as a concurrency-safe set of key/value
  slots in which each single operation is atomic, and \<open>extract\<close> as finding no store when
  the context is nil or carries none. A slot holds a value of type \<open>interface{}\<close>: nil, a
  string, a slice of messages, or a value of any other type.
\<close>

datatype level = err | debug | print

record LogMessage =
  File :: string
  Level' :: level
  Message' :: string

datatype Flags = LogMessages | RequestId | SaltKey

datatype any = any_nil | any_string string | any_messages "LogMessage list" | any_other nat

type_synonym Value = "Flags \<rightharpoonup> any"

definition Value_Load :: "Value \<Rightarrow> Flags \<Rightarrow> any option" where
  "Value_Load v k = v k"

definition Value_LoadAndDelete :: "Value \<Rightarrow> Flags \<Rightarrow> any option \<times> Value" where
  "Value_LoadAndDelete v k = (v k, v(k := None))"

definition Value_Set :: "Value \<Rightarrow> Flags \<Rightarrow> any \<Rightarrow> Value" where
  "Value_Set v k x = v(k \<mapsto> x)"

text \<open>
  A \<open>context.Context\<close>: nil, or a context that carries the address of a store or none.
  The stores live in the heap of the \<open>world\<close>, next to what \<open>fmt.Printf\<close> has printed.
\<close>

datatype Context = nil_context | ctx "nat option"

record world =
  heap :: "nat \<Rightarrow> Value"
  printed :: "string list"

definition extract_ctx :: "Context \<Rightarrow> nat option" where
  "extract_ctx c = (case c of nil_context \<Rightarrow> None | ctx a \<Rightarrow> a)"

text \<open>
  The caller's location: \<open>fileName\<close> and \<open>line\<close> are what \<open>runtime.Caller(1)\<close> returns.
\<close>

definition callerFile :: "string \<Rightarrow> int \<Rightarrow> string" where
  "callerFile fileName line =
     (let files = Split fileName (CHR ''/'') in
      if length files > 3
      then Join (drop (length files - 2) files) (CHR ''/'') @ '':'' @ fmt_d line
      else Join files (CHR ''/'') @ '':'' @ fmt_d line)"

text \<open>
  The two accesses each of \<open>Errorf\<close>, \<open>Error\<close>, \<open>DebugF\<close>, \<open>Debug\<close>, \<open>Printf\<close> and
  \<open>Print\<close> makes to the store: \<open>LoadAndDelete\<close> with the new message appended to what it
  returned, and later \<open>Set\<close>.
\<close>

definition append_take :: "LogMessage \<Rightarrow> Value \<Rightarrow> LogMessage list \<times> Value" where
  "append_take message v =
     (let (tmp, v') = Value_LoadAndDelete v LogMessages;
          messages = (case tmp of
                        Some (any_messages existingMessages) \<Rightarrow> existingMessages
                      | _ \<Rightarrow> [])
      in (messages @ [message], v'))"

definition append_set :: "LogMessage list \<Rightarrow> Value \<Rightarrow> Value" where
  "append_set messages v = Value_Set v LogMessages (any_messages messages)"

text \<open>
  The body the six methods share: they differ in the level constant, in the prefix of
  the fallback line, and in how the text is rendered (\<open>fmt.Sprintf\<close> or \<open>fmt.Sprint\<close>;
  \<open>text\<close> is the rendered message).
\<close>

definition append_log ::
  "level \<Rightarrow> string \<Rightarrow> Context \<Rightarrow> string \<times> int \<Rightarrow> string \<Rightarrow> world \<Rightarrow> world" where
  "append_log lvl prefix c caller text w =
     (if c = nil_context
      then w\<lparr>printed := printed w @ [prefix @ '': '' @ text @ '' (nil context)'' @ [CHR 0x0A]]\<rparr>
      else case extract_ctx c of
        None \<Rightarrow>
          w\<lparr>printed := printed w @
               [prefix @ '': '' @ text @ '' (logger not found in context)'' @ [CHR 0x0A]]\<rparr>
      | Some a \<Rightarrow>
          (let file = callerFile (fst caller) (snd caller);
               message = \<lparr>File = file, Level' = lvl, Message' = text\<rparr>;
               (messages, v) = append_take message (heap w a)
           in w\<lparr>heap := (heap w)(a := append_set messages v)\<rparr>))"

definition Errorf :: "Context \<Rightarrow> string \<times> int \<Rightarrow> string \<Rightarrow> world \<Rightarrow> world" where
  "Errorf = append_log err ''ERROR''"

definition Error :: "Context \<Rightarrow> string \<times> int \<Rightarrow> string \<Rightarrow> world \<Rightarrow> world" where
  "Error = append_log err ''ERROR''"

definition Printf :: "Context \<Rightarrow> string \<times> int \<Rightarrow> string \<Rightarrow> world \<Rightarrow> world" where
  "Printf = append_log print ''INFO''"

definition Print :: "Context \<Rightarrow> string \<times> int \<Rightarrow> string \<Rightarrow> world \<Rightarrow> world" where
  "Print = append_log print ''INFO''"

text \<open>
  \<open>DebugF\<close> and \<open>Debug\<close>: \<open>getenv\<close> is the environment at the time of the call, as
  \<open>env.GetString\<close> reads it. \<open>reflect.ValueOf(appEnv).IsZero()\<close> holds of the empty string.
\<close>

definition DebugF ::
  "(string \<Rightarrow> string) \<Rightarrow> Context \<Rightarrow> string \<times> int \<Rightarrow> string \<Rightarrow> world \<Rightarrow> world" where
  "DebugF getenv c caller text w =
     (let appEnv = ToUpper (getenv ''APP_ENV'') in
      if appEnv \<noteq> [] \<and> appEnv = ''PRODUCTION'' then w
      else append_log debug ''DEBUG'' c caller text w)"

definition Debug ::
  "(string \<Rightarrow> string) \<Rightarrow> Context \<Rightarrow> string \<times> int \<Rightarrow> string \<Rightarrow> world \<Rightarrow> world" where
  "Debug getenv c caller text w =
     (let appEnv = ToUpper (getenv ''APP_ENV'') in
      if appEnv \<noteq> [] \<and> appEnv = ''PRODUCTION'' then w
      else append_log debug ''DEBUG'' c caller text w)"

text \<open>\<open>GetRequestId\<close>: \<open>uuid\<close> is the string \<open>uuid.New().String()\<close> returns.\<close>

definition GetRequestId :: "string \<Rightarrow> Context \<Rightarrow> world \<Rightarrow> string" where
  "GetRequestId uuid c w =
     (if c = nil_context then uuid
      else case extract_ctx c of
        None \<Rightarrow> uuid
      | Some a \<Rightarrow>
          (case Value_Load (heap w a) RequestId of
             None \<Rightarrow> uuid
           | Some any_nil \<Rightarrow> uuid
           | Some (any_string v) \<Rightarrow> if v \<noteq> [] then v else uuid
           | Some _ \<Rightarrow> uuid))"

text \<open>
  Goroutines that append to one store. Each has the calls it still has to make (the
  message of each) and, between the \<open>LoadAndDelete\<close> and the \<open>Set\<close> of a call, the slice
  it holds. A schedule names the goroutine that makes the next access to the store.
\<close>

record goroutine =
  pending :: "LogMessage list"
  holding :: "LogMessage list option"

definition goroutine_step :: "Value \<Rightarrow> goroutine \<Rightarrow> Value \<times> goroutine" where
  "goroutine_step v g =
     (case holding g of
        Some messages \<Rightarrow> (append_set messages v, g\<lparr>holding := None\<rparr>)
      | None \<Rightarrow>
          (case pending g of
             [] \<Rightarrow> (v, g)
           | message # rest \<Rightarrow>
               (let (messages, v') = append_take message v
                in (v', g\<lparr>pending := rest, holding := Some messages\<rparr>))))"

fun interleave :: "Value \<Rightarrow> goroutine list \<Rightarrow> nat list \<Rightarrow> Value \<times> goroutine list" where
  "interleave v gs [] = (v, gs)"
| "interleave v gs (i # sched) =
     (if i < length gs
      then (let (v', g') = goroutine_step v (gs ! i) in interleave v' (gs[i := g']) sched)
      else interleave v gs sched)"

definition finished :: "goroutine \<Rightarrow> bool" where
  "finished g = (pending g = [] \<and> holding g = None)"

definition stored_messages :: "Value \<Rightarrow> LogMessage list" where
  "stored_messages v = (case v LogMessages of Some (any_messages ms) \<Rightarrow> ms | _ \<Rightarrow> [])"

section \<open>Example inputs\<close>

text \<open>A configuration, records and states of its client, used to instantiate the theorems.\<close>

definition example_config :: Config where
  "example_config =
     \<lparr>URL = ''http://loki:3100/loki/api/v1/push'', BatchSize = 2, BatchWait = 0,
      Labels = [''app'' \<mapsto> ''gokit''], HTTPClient = None\<rparr>"

definition example_entry :: "nat \<Rightarrow> entry" where
  "example_entry n = \<lparr>Timestamp = of_nat n, Message = ''m'', Level = ''info''\<rparr>"

definition example_system :: "entry list \<Rightarrow> entry list \<Rightarrow> bool \<Rightarrow> system" where
  "example_system queue waiting stopped =
     \<lparr>client = \<lparr>URL = ''http://loki:3100/loki/api/v1/push'', BatchSize = 2,
                BatchWait = second, Labels = [''app'' \<mapsto> ''gokit''],
                HTTPClient = Some (5 * second),
                entriesQueue = \<lparr>buf = queue, cap = 4, is_closed = False\<rparr>,
                done_ch = \<lparr>buf = [], cap = 0, is_closed = stopped\<rparr>\<rparr>,
      batch = waiting, returned = False, ticker_C = False, sent = [], stdout = []\<rparr>"

text \<open>A batch of two levels, and one order in which Go may range over its map.\<close>

definition example_batch :: "entry list" where
  "example_batch =
     [\<lparr>Timestamp = 1, Message = ''a'', Level = ''info''\<rparr>,
      \<lparr>Timestamp = 2, Message = ''b'', Level = ''error''\<rparr>,
      \<lparr>Timestamp = 30, Message = ''c'', Level = ''info''\<rparr>]"

definition example_order :: "(string \<times> entry list) list" where
  "example_order =
     [(''error'', [\<lparr>Timestamp = 2, Message = ''b'', Level = ''error''\<rparr>]),
      (''info'', [\<lparr>Timestamp = 1, Message = ''a'', Level = ''info''\<rparr>,
                 \<lparr>Timestamp = 30, Message = ''c'', Level = ''info''\<rparr>])]"

text \<open>
  Following the spec's words, to compare with \<open>callerFile\<close>: the recorded location is a
  path of at most two segments, a colon and the line number.
\<close>

definition spec_at_most_two_segments :: "int \<Rightarrow> string \<Rightarrow> bool" where
  "spec_at_most_two_segments line file =
     (let location = take (length file - length ('':'' @ fmt_d line)) file
      in file = location @ '':'' @ fmt_d line
         \<and> length (filter (\<lambda>segment. segment \<noteq> []) (Split location (CHR ''/''))) \<le> 2)"

text \<open>A world with empty stores, a message, a goroutine with one call to make, an environment.\<close>

definition example_world :: world where
  "example_world = \<lparr>heap = (\<lambda>a. Map.empty), printed = []\<rparr>"

definition example_message :: "string \<Rightarrow> LogMessage" where
  "example_message text = \<lparr>File = ''a/b.go:1'', Level' = err, Message' = text\<rparr>"

definition example_goroutine :: "string \<Rightarrow> goroutine" where
  "example_goroutine text = \<lparr>pending = [example_message text], holding = None\<rparr>"

definition example_env :: "string \<Rightarrow> string \<Rightarrow> string" where
  "example_env v k = (if k = ''APP_ENV'' then v else [])"

section \<open>The delivery adapter's severity\<close>

lemma contains_iff: "contains s sub \<longleftrightarrow> (\<exists>pre suf. s = pre @ sub @ suf)"
proof (induction s)
  case Nil
  then show ?case by auto
next
  case (Cons c s)
  show ?case
  proof
    assume "contains (c # s) sub"
    then consider "take (length sub) (c # s) = sub" | "contains s sub" by auto
    then show "\<exists>pre suf. c # s = pre @ sub @ suf"
    proof cases
      case 1
      then have "c # s = [] @ sub @ drop (length sub) (c # s)"
        by (metis append_Nil append_take_drop_id)
      then show ?thesis by blast
    next
      case 2
      then obtain pre suf where "s = pre @ sub @ suf" using Cons.IH by blast
      then have "c # s = (c # pre) @ sub @ suf" by simp
      then show ?thesis by blast
    qed
  next
    assume "\<exists>pre suf. c # s = pre @ sub @ suf"
    then obtain pre suf where eq: "c # s = pre @ sub @ suf" by blast
    show "contains (c # s) sub"
    proof (cases pre)
      case Nil
      then have "take (length sub) (c # s) = sub" using eq by simp
      then show ?thesis by simp
    next
      case (Cons d pre')
      then have "s = pre' @ sub @ suf" using eq by simp
      then have "contains s sub" using Cons.IH by blast
      then show ?thesis by simp
    qed
  qed
qed

lemma Write_level_find:
  "Write_level p =
     (case find (contains p) [''debug'', ''info'', ''warn'', ''error'', ''fatal''] of
        Some k \<Rightarrow> k | None \<Rightarrow> ''info'')"
proof (cases p)
  case Nil
  then show ?thesis by (simp add: Write_level_def)
next
  case (Cons a list)
  then have "length p > 0" by simp
  then show ?thesis unfolding Write_level_def Let_def by simp
qed

text \<open>
  Claim C6. The severity \<open>lokiWriter.Write\<close> passes to \<open>Log\<close> with the line is the first
  of debug, info, warn, error, fatal, in this order, that occurs in the line as a
  substring (\<open>contains\<close>, by \<open>contains_iff\<close> the literal occurrence), and info when none
  does; the empty line gives info, and a line with both debug and error gives debug.
\<close>

theorem Write_level_priority:
  "Write_level p =
     (case find (contains p) [''debug'', ''info'', ''warn'', ''error'', ''fatal''] of
        Some k \<Rightarrow> k | None \<Rightarrow> ''info'')
   \<and> Write_level [] = ''info''
   \<and> (contains p ''debug'' \<and> contains p ''error'' \<longrightarrow> Write_level p = ''debug'')
   \<and> Write now p s = (case Log now (Write_level p) p s of
                        Inl e \<Rightarrow> Inl e | Inr s' \<Rightarrow> Inr (s', length p, None))"
proof (intro conjI)
  show "Write_level p =
     (case find (contains p) [''debug'', ''info'', ''warn'', ''error'', ''fatal''] of
        Some k \<Rightarrow> k | None \<Rightarrow> ''info'')" by (rule Write_level_find)
  show "Write_level [] = ''info''" by (simp add: Write_level_def)
  show "contains p ''debug'' \<and> contains p ''error'' \<longrightarrow> Write_level p = ''debug''"
    by (simp add: Write_level_find)
  show "Write now p s = (case Log now (Write_level p) p s of
                        Inl e \<Rightarrow> Inl e | Inr s' \<Rightarrow> Inr (s', length p, None))"
    by (simp add: Write_def)
qed

theorem Write_level_priority_witness:
  "contains ''an error in debug mode'' ''debug'' \<and> contains ''an error in debug mode'' ''error''
   \<and> Write_level ''an error in debug mode'' = ''debug''
   \<and> Write_level ''plain text'' = ''info''"
  using Write_level_priority [of "''an error in debug mode''"]
        Write_level_priority [of "''plain text''"]
  by simp

section \<open>The client: queue, worker and shutdown\<close>

lemma sint_double:
  fixes b :: "64 word"
  assumes "0 < sint b" and "0 \<le> sint (b * 2)"
  shows "sint (b * 2) = 2 * sint b"
proof -
  have hi: "sint b < 2 ^ 63" using sint_lt [of b] by simp
  have eq: "sint (b * 2) = signed_take_bit 63 (sint b * 2)"
    by (simp add: sint_word_ariths)
  have stb: "signed_take_bit 63 (sint b * 2) = (sint b * 2 + 2 ^ 63) mod 2 ^ 64 - 2 ^ 63"
    by (simp add: signed_take_bit_eq_take_bit_shift take_bit_eq_mod)
  show ?thesis
  proof (cases "sint b * 2 < 2 ^ 63")
    case True
    then have "(sint b * 2 + 2 ^ 63) mod 2 ^ 64 = sint b * 2 + 2 ^ 63"
      using assms(1) by (intro mod_pos_pos_trivial) auto
    then show ?thesis using eq stb by simp
  next
    case False
    then have "(sint b * 2 + 2 ^ 63) mod 2 ^ 64 = sint b * 2 + 2 ^ 63 - 2 ^ 64"
    proof -
      define k where "k = sint b * 2 + 2 ^ 63 - (2 ^ 64 :: int)"
      have "0 \<le> k" "k < 2 ^ 64" using False hi by (simp_all add: k_def)
      then have "k mod 2 ^ 64 = k" by (intro mod_pos_pos_trivial)
      moreover have "(sint b * 2 + 2 ^ 63) mod 2 ^ 64 = k mod (2 ^ 64 :: int)"
        unfolding k_def by (metis mod_diff_right_eq mod_self diff_zero)
      ultimately show ?thesis by (simp add: k_def)
    qed
    then have "sint (b * 2) = sint b * 2 - 2 ^ 64" using eq stb by simp
    then have "sint (b * 2) < 0" using hi by simp
    then show ?thesis using assms(2) by simp
  qed
qed


lemma step_done_closed:
  assumes "step s a = Inr s'" and "is_closed (done_ch (client s))"
  shows "is_closed (done_ch (client s'))"
  using assms
  by (cases a)
     (auto simp: Log_def Stop_def try_send_def close_chan_def of_option_def
        processQueue_done_def processQueue_entry_def processQueue_tick_def Let_def
        split: if_splits sum.splits error.splits option.splits list.splits)

lemma run_done_closed:
  "run s as = Inr s' \<Longrightarrow> is_closed (done_ch (client s)) \<Longrightarrow> is_closed (done_ch (client s'))"
proof (induction as arbitrary: s)
  case Nil
  then show ?case by simp
next
  case (Cons a as)
  then obtain s1 where s1: "step s a = Inr s1" "run s1 as = Inr s'"
    by (auto split: sum.splits)
  then show ?case using Cons.IH Cons.prems(2) step_done_closed by blast
qed

lemma step_returned:
  assumes "step s a = Inr s'" and "returned s"
  shows "returned s' \<and> sent s' = sent s"
  using assms
  by (cases a)
     (auto simp: Log_def Stop_def try_send_def close_chan_def of_option_def
        processQueue_done_def processQueue_entry_def processQueue_tick_def
        split: if_splits sum.splits error.splits)

lemma run_returned:
  "run s as = Inr s' \<Longrightarrow> returned s \<Longrightarrow> returned s' \<and> sent s' = sent s"
proof (induction as arbitrary: s)
  case Nil
  then show ?case by simp
next
  case (Cons a as)
  then obtain s1 where s1: "step s a = Inr s1" "run s1 as = Inr s'"
    by (auto split: sum.splits)
  then have "returned s1 \<and> sent s1 = sent s" using step_returned Cons.prems(2) by blast
  then show ?case using Cons.IH s1(2) by fastforce
qed

lemma step_queue:
  assumes "step s a = Inr s'" and "\<not> is_closed (entriesQueue (client s))"
  shows "\<not> is_closed (entriesQueue (client s'))
       \<and> cap (entriesQueue (client s')) = cap (entriesQueue (client s))
       \<and> BatchSize (client s') = BatchSize (client s)"
  using assms
  by (cases a)
     (auto simp: Log_def Stop_def try_send_def close_chan_def of_option_def
        processQueue_done_def processQueue_entry_def processQueue_tick_def Let_def
        split: if_splits sum.splits error.splits option.splits list.splits)

lemma run_queue:
  "run s as = Inr s' \<Longrightarrow> \<not> is_closed (entriesQueue (client s)) \<Longrightarrow>
   \<not> is_closed (entriesQueue (client s'))
     \<and> cap (entriesQueue (client s')) = cap (entriesQueue (client s))
     \<and> BatchSize (client s') = BatchSize (client s)"
proof (induction as arbitrary: s)
  case Nil
  then show ?case by simp
next
  case (Cons a as)
  then obtain s1 where s1: "step s a = Inr s1" "run s1 as = Inr s'"
    by (auto split: sum.splits)
  from step_queue [OF s1(1) Cons.prems(2)] Cons.IH [OF s1(2)] show ?case by simp
qed

lemma NewClient_queue:
  assumes "NewClient config = Inr s"
  shows "\<not> is_closed (entriesQueue (client s))
       \<and> buf (entriesQueue (client s)) = []
       \<and> BatchSize (client s) = (if sint (BatchSize config) \<le> 0 then 100 else BatchSize config)
       \<and> 0 < sint (BatchSize (client s))
       \<and> int (cap (entriesQueue (client s))) = 2 * sint (BatchSize (client s))"
proof -
  define b where "b = (if sint (BatchSize config) \<le> 0 then 100 else BatchSize config)"
  have pos: "0 < sint b" by (simp add: b_def)
  from assms have nn: "0 \<le> sint (b * 2)"
    by (auto simp: NewClient_def Let_def make_chan_def b_def split: if_splits)
  from assms have s: "BatchSize (client s) = b" "\<not> is_closed (entriesQueue (client s))"
     "buf (entriesQueue (client s)) = []" "cap (entriesQueue (client s)) = nat (sint (b * 2))"
    by (auto simp: NewClient_def Let_def make_chan_def b_def split: if_splits)
  show ?thesis using s pos nn sint_double [OF pos nn] by (simp add: b_def)
qed

text \<open>
  Claim C5. In every state a client made by \<open>NewClient\<close> reaches, whatever the producers,
  the ticker and the worker did before, a call of \<open>Log\<close> returns (it neither waits nor
  panics): the record is appended to the queue when the queue has room, and otherwise the
  record is dropped and one line is printed. The capacity of the queue stays what
  \<open>NewClient\<close> gave it, twice the batch size of the client (the configured one, 100 when
  that is not positive).
\<close>

theorem Log_never_blocks:
  assumes "NewClient config = Inr s0" and "run s0 as = Inr s"
  shows "int (cap (entriesQueue (client s))) = 2 * sint (BatchSize (client s))
       \<and> BatchSize (client s) = (if sint (BatchSize config) \<le> 0 then 100 else BatchSize config)
       \<and> Log t l m s =
           (if length (buf (entriesQueue (client s))) < cap (entriesQueue (client s))
            then Inr (s\<lparr>client := (client s)\<lparr>entriesQueue := (entriesQueue (client s))
                     \<lparr>buf := buf (entriesQueue (client s)) @
                              [\<lparr>Timestamp = t, Message = m, Level = l\<rparr>]\<rparr>\<rparr>\<rparr>)
            else Inr (s\<lparr>stdout := stdout s @
                     [''Loki client queue full, dropping log entry: '' @ m @ [CHR 0x0A]]\<rparr>))"
proof -
  note n = NewClient_queue [OF assms(1)]
  from n have "\<not> is_closed (entriesQueue (client s0))" by simp
  note r = run_queue [OF assms(2) this]
  show ?thesis using n r by (simp add: Log_def try_send_def)
qed

lemma NewClient_example: "NewClient example_config = Inr (example_system [] [] False)"
  by (simp add: NewClient_def example_config_def example_system_def make_chan_def)

lemma run_example_full:
  "run (example_system [] [] False)
     [Call_Log 1 ''info'' ''m'', Call_Log 2 ''info'' ''m'', Call_Log 3 ''info'' ''m'',
      Call_Log 4 ''info'' ''m'']
   = Inr (example_system [example_entry 1, example_entry 2, example_entry 3, example_entry 4]
            [] False)"
  by (simp add: example_system_def example_entry_def Log_def try_send_def)

theorem Log_never_blocks_witness:
  "NewClient example_config = Inr (example_system [] [] False)
   \<and> Log 5 ''info'' ''late''
        (example_system [example_entry 1, example_entry 2, example_entry 3, example_entry 4]
           [] False)
     = Inr ((example_system [example_entry 1, example_entry 2, example_entry 3, example_entry 4]
           [] False)
          \<lparr>stdout := [''Loki client queue full, dropping log entry: late'' @ [CHR 0x0A]]\<rparr>)"
  using Log_never_blocks [OF NewClient_example run_example_full, of 5 "''info''" "''late''"]
        NewClient_example
  by (simp add: example_system_def)

text \<open>
  Claim C2. When the worker takes a record from the queue and the batch with this record
  appended is at least as long as the batch size, the worker calls \<open>sendBatch\<close> on that
  batch in the same iteration, whether or not a tick is waiting, and goes on with an empty
  batch.
\<close>

theorem batch_size_flush:
  assumes "\<not> returned s"
    and "buf (entriesQueue (client s)) = e # q"
    and "sint (BatchSize (client s)) \<le> int (length (batch s @ [e]))"
  shows "processQueue_entry s =
           Some (s\<lparr>client := (client s)\<lparr>entriesQueue := (entriesQueue (client s))\<lparr>buf := q\<rparr>\<rparr>,
                   batch := [], sent := sent s @ [batch s @ [e]]\<rparr>)"
  using assms by (simp add: processQueue_entry_def Let_def)

theorem batch_size_flush_witness:
  "processQueue_entry (example_system [example_entry 2, example_entry 3] [example_entry 1] False)
   = Some ((example_system [example_entry 3] [] False)
             \<lparr>sent := [[example_entry 1, example_entry 2]]\<rparr>)"
  using batch_size_flush
    [of "example_system [example_entry 2, example_entry 3] [example_entry 1] False"
        "example_entry 2" "[example_entry 3]"]
  by (simp add: example_system_def)

text \<open>
  Claim C3. When the worker takes a tick, it calls \<open>sendBatch\<close> exactly when the batch is
  not empty, on the whole batch, and goes on with an empty batch; with an empty batch
  nothing changes but the tick being consumed: no call of \<open>sendBatch\<close>, the only place
  that makes an HTTP request, and nothing printed.
\<close>

theorem tick_flush:
  assumes "\<not> returned s" and "ticker_C s"
  shows "\<exists>s'. processQueue_tick s = Some s'
           \<and> (sent s' \<noteq> sent s \<longleftrightarrow> batch s \<noteq> [])
           \<and> (batch s \<noteq> [] \<longrightarrow> s' = s\<lparr>ticker_C := False, sent := sent s @ [batch s], batch := []\<rparr>)
           \<and> (batch s = [] \<longrightarrow> s' = s\<lparr>ticker_C := False\<rparr>)"
  using assms by (simp add: processQueue_tick_def Let_def)

theorem tick_flush_witness:
  "processQueue_tick ((example_system [] [example_entry 1] False)\<lparr>ticker_C := True\<rparr>)
     = Some ((example_system [] [] False)\<lparr>sent := [[example_entry 1]]\<rparr>)
   \<and> processQueue_tick ((example_system [] [] False)\<lparr>ticker_C := True\<rparr>)
     = Some (example_system [] [] False)"
  using tick_flush [of "(example_system [] [example_entry 1] False)\<lparr>ticker_C := True\<rparr>"]
        tick_flush [of "(example_system [] [] False)\<lparr>ticker_C := True\<rparr>"]
  by (simp add: example_system_def)

lemma Stop_closes: "Stop s = Inr s' \<Longrightarrow> is_closed (done_ch (client s'))"
  by (auto simp: Stop_def close_chan_def split: if_splits)

text \<open>
  Claim C4. Once \<open>Stop\<close> has closed the channel, whatever happens before the worker's
  \<open>select\<close> takes that case, the case can be taken; the worker then calls \<open>sendBatch\<close>
  once on the pending batch when it is not empty and not at all when it is empty, and
  returns. After that no sequence of actions adds a call of \<open>sendBatch\<close>.
\<close>

theorem shutdown_final_flush:
  assumes "Stop s0 = Inr s1" and "run s1 as = Inr s" and "\<not> returned s"
  shows "\<exists>s'. processQueue_done s = Some s'
           \<and> returned s'
           \<and> sent s' = (if batch s = [] then sent s else sent s @ [batch s])
           \<and> (\<forall>bs s''. run s' bs = Inr s'' \<longrightarrow> returned s'' \<and> sent s'' = sent s')"
proof -
  have "is_closed (done_ch (client s))"
    using run_done_closed [OF assms(2)] Stop_closes [OF assms(1)] by simp
  then obtain s' where s': "processQueue_done s = Some s'" "returned s'"
      "sent s' = (if batch s = [] then sent s else sent s @ [batch s])"
    using assms(3) by (simp add: processQueue_done_def)
  moreover have "\<forall>bs s''. run s' bs = Inr s'' \<longrightarrow> returned s'' \<and> sent s'' = sent s'"
    using run_returned s'(2) by blast
  ultimately show ?thesis by blast
qed

lemma Stop_example:
  "Stop (example_system [] [example_entry 1] False) = Inr (example_system [] [example_entry 1] True)"
  by (simp add: Stop_def close_chan_def example_system_def)

lemma run_after_Stop_example:
  "run (example_system [] [example_entry 1] True) [Ticker_fires]
     = Inr ((example_system [] [example_entry 1] True)\<lparr>ticker_C := True\<rparr>)"
  by simp

theorem shutdown_final_flush_witness:
  "processQueue_done ((example_system [] [example_entry 1] True)\<lparr>ticker_C := True\<rparr>)
     = Some ((example_system [] [example_entry 1] True)
              \<lparr>ticker_C := True, sent := [[example_entry 1]], returned := True\<rparr>)
   \<and> (\<exists>s'. processQueue_done ((example_system [] [example_entry 1] True)\<lparr>ticker_C := True\<rparr>)
           = Some s'
         \<and> run s' [Select_tick] = Inl NotReady
         \<and> (\<exists>s''. run s' [Call_Log 9 ''info'' ''x'', Ticker_fires] = Inr s''
                \<and> sent s'' = [[example_entry 1]]))"
proof -
  have nr: "\<not> returned ((example_system [] [example_entry 1] True)\<lparr>ticker_C := True\<rparr>)"
    by (simp add: example_system_def)
  from shutdown_final_flush [OF Stop_example run_after_Stop_example nr]
  obtain s' where s':
    "processQueue_done ((example_system [] [example_entry 1] True)\<lparr>ticker_C := True\<rparr>) = Some s'"
    "returned s'" "sent s' = [[example_entry 1]]"
    "\<forall>bs s''. run s' bs = Inr s'' \<longrightarrow> returned s'' \<and> sent s'' = sent s'"
    by (auto simp: example_system_def)
  have eq: "s' = (example_system [] [example_entry 1] True)
              \<lparr>ticker_C := True, sent := [[example_entry 1]], returned := True\<rparr>"
    using s'(1) by (simp add: processQueue_done_def example_system_def)
  have a: "run s' [Select_tick] = Inl NotReady"
    using s'(2) by (simp add: processQueue_tick_def of_option_def)
  have "\<exists>s''. run s' [Call_Log 9 ''info'' ''x'', Ticker_fires] = Inr s''"
    unfolding eq by (simp add: example_system_def Log_def try_send_def)
  then obtain s'' where b: "run s' [Call_Log 9 ''info'' ''x'', Ticker_fires] = Inr s''" by blast
  then have "sent s'' = [[example_entry 1]]" using s'(3,4) by metis
  then show ?thesis using s'(1) eq a b by blast
qed

section \<open>The streams of a batch\<close>

lemma foldl_groups:
  "foldl (\<lambda>m e. m(Level e \<mapsto> (case m (Level e) of None \<Rightarrow> [] | Some es \<Rightarrow> es) @ [e])) m entries l
   = (if filter (\<lambda>e. Level e = l) entries = [] then m l
      else Some ((case m l of None \<Rightarrow> [] | Some es \<Rightarrow> es) @ filter (\<lambda>e. Level e = l) entries))"
  by (induction entries arbitrary: m) auto

lemma entriesByLevel_eq:
  "entriesByLevel entries l
   = (if l \<in> Level ` set entries then Some (filter (\<lambda>e. Level e = l) entries) else None)"
proof -
  have "filter (\<lambda>e. Level e = l) entries = [] \<longleftrightarrow> l \<notin> Level ` set entries"
    by (auto simp: filter_empty_conv)
  then show ?thesis by (simp add: entriesByLevel_def foldl_groups)
qed

lemma range_order_groups:
  assumes "range_order (entriesByLevel entries) kvs"
  shows "distinct (map fst kvs)"
    and "set (map fst kvs) = Level ` set entries"
    and "kvs = map (\<lambda>level. (level, filter (\<lambda>e. Level e = level) entries)) (map fst kvs)"
proof -
  from assms have d: "distinct (map fst kvs)" and m: "map_of kvs = entriesByLevel entries"
    by (simp_all add: range_order_def)
  show "distinct (map fst kvs)" by (rule d)
  have "set (map fst kvs) = dom (map_of kvs)" by (simp add: dom_map_of_conv_image_fst)
  also have "\<dots> = Level ` set entries"
    unfolding m by (auto simp: dom_def entriesByLevel_eq)
  finally show "set (map fst kvs) = Level ` set entries" .
  have "\<And>k v. (k, v) \<in> set kvs \<Longrightarrow> v = filter (\<lambda>e. Level e = k) entries"
  proof -
    fix k v assume "(k, v) \<in> set kvs"
    then have "map_of kvs k = Some v" using d by simp
    then show "v = filter (\<lambda>e. Level e = k) entries"
      unfolding m by (simp add: entriesByLevel_eq split: if_splits)
  qed
  then show "kvs = map (\<lambda>level. (level, filter (\<lambda>e. Level e = level) entries)) (map fst kvs)"
    by (induction kvs) auto
qed

lemma mset_filter_disjoint:
  "(\<And>x. x \<in> set xs \<Longrightarrow> \<not> (P x \<and> Q x)) \<Longrightarrow>
   mset (filter P xs) + mset (filter Q xs) = mset (filter (\<lambda>x. P x \<or> Q x) xs)"
  by (induction xs) auto

lemma mset_groups:
  "distinct ks \<Longrightarrow>
   mset (concat (map (\<lambda>level. filter (\<lambda>e. Level e = level) entries) ks))
   = mset (filter (\<lambda>e. Level e \<in> set ks) entries)"
proof (induction ks)
  case Nil
  then show ?case by simp
next
  case (Cons k ks)
  then have "mset (concat (map (\<lambda>level. filter (\<lambda>e. Level e = level) entries) (k # ks)))
     = mset (filter (\<lambda>e. Level e = k) entries) + mset (filter (\<lambda>e. Level e \<in> set ks) entries)"
    by simp
  also have "\<dots> = mset (filter (\<lambda>e. Level e = k \<or> Level e \<in> set ks) entries)"
    using Cons.prems by (intro mset_filter_disjoint) auto
  finally show ?case by (simp add: disj_commute)
qed

lemma digit_val_digit: "n < 10 \<Longrightarrow> digit_val (digit n) = n"
proof -
  assume "n < 10"
  then have "n \<in> {0, 1, 2, 3, 4, 5, 6, 7, 8, 9}" by auto
  then show ?thesis by (auto simp: digit_val_def digit_def)
qed

lemma digit_not_minus: "n < 10 \<Longrightarrow> digit n \<noteq> CHR ''-''"
proof -
  assume "n < 10"
  then have "n \<in> {0, 1, 2, 3, 4, 5, 6, 7, 8, 9}" by auto
  then show ?thesis by (auto simp: digit_def)
qed

lemma read_nat_snoc: "read_nat (s @ [c]) = 10 * read_nat s + digit_val c"
  by (simp add: read_nat_def)

lemma read_nat_dec_nat: "read_nat (dec_nat n) = n"
proof (induction n rule: dec_nat.induct)
  case (1 n)
  show ?case
  proof (cases "n < 10")
    case True
    then show ?thesis by (simp add: dec_nat.simps [of n] read_nat_def digit_val_digit)
  next
    case False
    then show ?thesis using 1 by (simp add: dec_nat.simps [of n] read_nat_snoc digit_val_digit)
  qed
qed

lemma dec_nat_hd: "\<exists>c cs. dec_nat n = c # cs \<and> c \<noteq> CHR ''-''"
proof (induction n rule: dec_nat.induct)
  case (1 n)
  show ?case
  proof (cases "n < 10")
    case True
    then show ?thesis by (simp add: dec_nat.simps [of n] digit_not_minus)
  next
    case False
    then obtain c cs where "dec_nat (n div 10) = c # cs" "c \<noteq> CHR ''-''" using 1 by blast
    then show ?thesis using False by (simp add: dec_nat.simps [of n])
  qed
qed

lemma read_int_fmt_d: "read_int (fmt_d i) = i"
proof (cases "i < 0")
  case True
  then show ?thesis by (simp add: fmt_d_def read_int_def read_nat_dec_nat)
next
  case False
  obtain c cs where c: "dec_nat (nat i) = c # cs" "c \<noteq> CHR ''-''" using dec_nat_hd by blast
  have "read_nat (dec_nat (nat i)) = nat i" by (rule read_nat_dec_nat)
  then show ?thesis using False c by (simp add: fmt_d_def read_int_def)
qed

text \<open>
  Claim C1. Whatever order Go ranges over the map of levels in, \<open>sendBatch\<close> builds one
  stream for each level that occurs in the batch and no other. The stream of a level
  carries the client's labels with \<open>level\<close> set to that level, and as values, in the order
  of the batch, the pair of decimal timestamp (read back, it is the value of \<open>UnixNano()\<close>)
  and message of each record of that level. The records of the streams together are the
  records of the batch, each as often as it occurs there.
\<close>

theorem sendBatch_streams:
  assumes "range_order (entriesByLevel entries) kvs"
  shows "distinct (map fst kvs)
       \<and> set (map fst kvs) = Level ` set entries
       \<and> Streams (sendBatch_reqBody c kvs)
           = map (\<lambda>level. \<lparr>Stream = (Labels c)(''level'' \<mapsto> level),
                            Values = map (\<lambda>e. [fmt_d (sint (Timestamp e)), Message e])
                                       (filter (\<lambda>e. Level e = level) entries)\<rparr>)
               (map fst kvs)
       \<and> mset (concat (map (\<lambda>level. filter (\<lambda>e. Level e = level) entries) (map fst kvs)))
           = mset entries
       \<and> (\<forall>e. read_int (fmt_d (sint (Timestamp e))) = sint (Timestamp e))"
proof -
  note g = range_order_groups [OF assms]
  have "map (level_stream c) kvs
        = map (level_stream c)
            (map (\<lambda>level. (level, filter (\<lambda>e. Level e = level) entries)) (map fst kvs))"
    using g(3) by simp
  then have s: "Streams (sendBatch_reqBody c kvs)
           = map (\<lambda>level. \<lparr>Stream = (Labels c)(''level'' \<mapsto> level),
                            Values = map (\<lambda>e. [fmt_d (sint (Timestamp e)), Message e])
                                       (filter (\<lambda>e. Level e = level) entries)\<rparr>)
               (map fst kvs)"
    by (simp add: sendBatch_reqBody_def level_stream_def entry_value_def comp_def)
  have "mset (concat (map (\<lambda>level. filter (\<lambda>e. Level e = level) entries) (map fst kvs)))
        = mset (filter (\<lambda>e. Level e \<in> set (map fst kvs)) entries)"
    by (rule mset_groups [OF g(1)])
  also have "\<dots> = mset entries" unfolding g(2) by (simp add: filter_id_conv [THEN iffD2])
  finally have p: "mset (concat (map (\<lambda>level. filter (\<lambda>e. Level e = level) entries) (map fst kvs)))
        = mset entries" .
  show ?thesis using g(1,2) s p read_int_fmt_d by blast
qed

lemma example_range_order: "range_order (entriesByLevel example_batch) example_order"
  by (auto simp: range_order_def fun_eq_iff entriesByLevel_eq example_batch_def example_order_def)

theorem sendBatch_streams_witness:
  "range_order (entriesByLevel example_batch) example_order
   \<and> Streams (sendBatch_reqBody (client (example_system [] [] False)) example_order)
     = [\<lparr>Stream = [''app'' \<mapsto> ''gokit'', ''level'' \<mapsto> ''error''], Values = [[''2'', ''b'']]\<rparr>,
        \<lparr>Stream = [''app'' \<mapsto> ''gokit'', ''level'' \<mapsto> ''info''],
         Values = [[''1'', ''a''], [''30'', ''c'']]\<rparr>]"
proof -
  have "Streams (sendBatch_reqBody (client (example_system [] [] False)) example_order)
        = map (\<lambda>level. \<lparr>Stream = (Labels (client (example_system [] [] False)))(''level'' \<mapsto> level),
                            Values = map (\<lambda>e. [fmt_d (sint (Timestamp e)), Message e])
                                       (filter (\<lambda>e. Level e = level) example_batch)\<rparr>)
               (map fst example_order)"
    using sendBatch_streams [OF example_range_order] by blast
  also have "\<dots> = [\<lparr>Stream = [''app'' \<mapsto> ''gokit'', ''level'' \<mapsto> ''error''], Values = [[''2'', ''b'']]\<rparr>,
        \<lparr>Stream = [''app'' \<mapsto> ''gokit'', ''level'' \<mapsto> ''info''],
         Values = [[''1'', ''a''], [''30'', ''c'']]\<rparr>]"
    by (simp add: example_batch_def example_order_def example_system_def fmt_d_def
        dec_nat.simps digit_def)
  finally show ?thesis using example_range_order by simp
qed

section \<open>The messages kept with a context\<close>

lemma Split_not_Nil: "Split s c \<noteq> []"
  by (induction s) (auto split: list.splits)

lemma Join_Cons_Cons: "Join ((x # w) # ws) c = x # Join (w # ws) c"
  by (cases ws) auto

lemma Join_Nil_Cons: "ws \<noteq> [] \<Longrightarrow> Join ([] # ws) c = c # Join ws c"
  by (cases ws) auto

lemma Join_Split: "Join (Split s c) c = s"
proof (induction s)
  case Nil
  then show ?case by simp
next
  case (Cons x s)
  obtain w ws where r: "Split s c = w # ws" using Split_not_Nil by (cases "Split s c") auto
  show ?case
  proof (cases "x = c")
    case True
    then show ?thesis using Cons Split_not_Nil Join_Nil_Cons by simp
  next
    case False
    then show ?thesis using Cons r by (simp add: Join_Cons_Cons)
  qed
qed

lemma length_Split: "length (Split s c) = Suc (count_list s c)"
proof (induction s)
  case Nil
  then show ?case by simp
next
  case (Cons x s)
  obtain w ws where r: "Split s c = w # ws" using Split_not_Nil by (cases "Split s c") auto
  then show ?case using Cons by auto
qed

lemma stored_append_log:
  assumes "extract_ctx c = Some a"
  shows "stored_messages (heap (append_log lvl prefix c caller text w) a)
         = stored_messages (heap w a)
           @ [\<lparr>File = callerFile (fst caller) (snd caller), Level' = lvl, Message' = text\<rparr>]"
proof -
  from assms have "c \<noteq> nil_context" by (auto simp: extract_ctx_def)
  then show ?thesis using assms
    by (auto simp: append_log_def Let_def append_take_def append_set_def Value_Set_def
          Value_LoadAndDelete_def stored_messages_def split: option.splits any.splits)
qed

lemma Join_last_two:
  assumes "3 < length xs"
  shows "Join (drop (length xs - 2) xs) c
         = xs ! (length xs - 2) @ c # xs ! (length xs - 1)"
proof -
  have "drop (length xs - 2) xs = xs ! (length xs - 2) # drop (Suc (length xs - 2)) xs"
    using assms by (intro Cons_nth_drop_Suc [symmetric]) simp
  moreover have "Suc (length xs - 2) = length xs - 1" using assms by simp
  moreover have "drop (length xs - 1) xs = xs ! (length xs - 1) # drop (Suc (length xs - 1)) xs"
    using assms by (intro Cons_nth_drop_Suc [symmetric]) simp
  ultimately have "drop (length xs - 2) xs = [xs ! (length xs - 2), xs ! (length xs - 1)]"
    using assms by simp
  then show ?thesis by simp
qed

text \<open>
  Claim C8, as amended. With a store bound to the context, the \<open>File\<close> of the appended
  message is the caller's path, a colon and the line number, where a path that splits at
  the slashes into more than three parts is cut to its last two parts, and a path of at
  most three parts is kept whole. The number of parts is one more than the number of
  slashes.
\<close>

theorem caller_location_amended:
  assumes "extract_ctx c = Some a"
  shows "File (last (stored_messages (heap (append_log lvl prefix c (fileName, line) text w) a)))
         = (let files = Split fileName (CHR ''/'') in
            if 3 < length files
            then files ! (length files - 2) @ ''/'' @ files ! (length files - 1)
            else fileName) @ '':'' @ fmt_d line
       \<and> length (Split fileName (CHR ''/'')) = Suc (count_list fileName (CHR ''/''))"
proof -
  have "callerFile fileName line
        = (let files = Split fileName (CHR ''/'') in
            if 3 < length files
            then files ! (length files - 2) @ ''/'' @ files ! (length files - 1)
            else fileName) @ '':'' @ fmt_d line"
    by (simp add: callerFile_def Let_def Join_Split Join_last_two)
  then show ?thesis
    using stored_append_log [OF assms, of lvl prefix "(fileName, line)" "text" w]
    by (simp add: length_Split)
qed

theorem caller_location_amended_witness:
  "File (last (stored_messages (heap (Errorf (ctx (Some 0))
        (''/home/dev/gokit/rest/handler.go'', 42) ''boom'' example_world) 0)))
     = ''rest/handler.go:42''
   \<and> File (last (stored_messages (heap (Errorf (ctx (Some 0))
        (''/app/main.go'', 7) ''boom'' example_world) 0)))
     = ''/app/main.go:7''"
  using caller_location_amended [of "ctx (Some 0)" 0 err "''ERROR''"
          "''/home/dev/gokit/rest/handler.go''" 42 "''boom''" example_world]
        caller_location_amended [of "ctx (Some 0)" 0 err "''ERROR''"
          "''/app/main.go''" 7 "''boom''" example_world]
  by (simp add: Errorf_def extract_ctx_def fmt_d_def dec_nat.simps digit_def)

text \<open>
  Claim C8 as stated fails: a relative path of three segments, as a build with trimmed
  paths reports for a module named app, is recorded with all three.
\<close>

theorem caller_location_counterexample:
  "File (last (stored_messages (heap (Errorf (ctx (Some 0)) (''app/rest/handler.go'', 7) ''boom''
        example_world) 0))) = ''app/rest/handler.go:7''
   \<and> \<not> spec_at_most_two_segments 7
        (File (last (stored_messages (heap (Errorf (ctx (Some 0)) (''app/rest/handler.go'', 7)
           ''boom'' example_world) 0))))"
proof -
  have f: "File (last (stored_messages (heap (Errorf (ctx (Some 0)) (''app/rest/handler.go'', 7)
        ''boom'' example_world) 0))) = ''app/rest/handler.go:7''"
    by (simp add: Errorf_def stored_append_log extract_ctx_def callerFile_def
          fmt_d_def dec_nat.simps digit_def)
  show ?thesis unfolding f
    by (simp add: spec_at_most_two_segments_def fmt_d_def dec_nat.simps digit_def)
qed

lemma example_world_stored: "stored_messages (heap example_world a) = []"
  by (simp add: example_world_def stored_messages_def)

text \<open>
  Claim C9. When the upper-cased value of \<open>APP_ENV\<close> at the time of the call is PRODUCTION,
  \<open>Debug\<close> and \<open>DebugF\<close> change nothing: no store and nothing printed. The value is read
  at each call: the same call made next under an environment that is not production
  appends its message.
\<close>

theorem Debug_suppressed_in_production:
  assumes "ToUpper (getenv ''APP_ENV'') = ''PRODUCTION''"
  shows "Debug getenv c caller text w = w
       \<and> DebugF getenv c caller text w = w
       \<and> (\<forall>getenv'. ToUpper (getenv' ''APP_ENV'') \<noteq> ''PRODUCTION'' \<longrightarrow>
            Debug getenv' c caller text (Debug getenv c caller text w)
              = append_log debug ''DEBUG'' c caller text w
          \<and> DebugF getenv' c caller text (DebugF getenv c caller text w)
              = append_log debug ''DEBUG'' c caller text w)"
  using assms by (simp add: Debug_def DebugF_def Let_def)

theorem Debug_suppressed_in_production_witness:
  "ToUpper (example_env ''production'' ''APP_ENV'') = ''PRODUCTION''
   \<and> Debug (example_env ''production'') (ctx (Some 0))
        (''/srv/app/rest/handler.go'', 10) ''x'' example_world = example_world
   \<and> stored_messages (heap
        (Debug (example_env ''staging'') (ctx (Some 0))
           (''/srv/app/rest/handler.go'', 10) ''x''
           (Debug (example_env ''production'') (ctx (Some 0))
              (''/srv/app/rest/handler.go'', 10) ''x'' example_world)) 0)
     = [\<lparr>File = ''rest/handler.go:10'', Level' = debug, Message' = ''x''\<rparr>]"
proof -
  have p: "ToUpper (example_env ''production'' ''APP_ENV'')
           = ''PRODUCTION''"
    by (simp add: upper_char_def example_env_def)
  have q: "ToUpper (example_env ''staging'' ''APP_ENV'')
           \<noteq> ''PRODUCTION''"
    by (simp add: upper_char_def example_env_def)
  note t = Debug_suppressed_in_production [of "example_env ''production''" "ctx (Some 0)"
             "(''/srv/app/rest/handler.go'', 10)" "''x''" example_world, OF p]
  have a: "Debug (example_env ''production'') (ctx (Some 0))
        (''/srv/app/rest/handler.go'', 10) ''x'' example_world = example_world"
    using t by blast
  have "Debug (example_env ''staging'') (ctx (Some 0))
           (''/srv/app/rest/handler.go'', 10) ''x''
           (Debug (example_env ''production'') (ctx (Some 0))
              (''/srv/app/rest/handler.go'', 10) ''x'' example_world)
        = append_log debug ''DEBUG'' (ctx (Some 0)) (''/srv/app/rest/handler.go'', 10) ''x''
            example_world"
    using t q by blast
  then have b: "stored_messages (heap
        (Debug (example_env ''staging'') (ctx (Some 0))
           (''/srv/app/rest/handler.go'', 10) ''x''
           (Debug (example_env ''production'') (ctx (Some 0))
              (''/srv/app/rest/handler.go'', 10) ''x'' example_world)) 0)
     = [\<lparr>File = ''rest/handler.go:10'', Level' = debug, Message' = ''x''\<rparr>]"
    using example_world_stored [of 0]
    by (simp add: stored_append_log extract_ctx_def callerFile_def fmt_d_def dec_nat.simps
          digit_def)
  show ?thesis using p a b by blast
qed

text \<open>
  Claim C10. \<open>GetRequestId\<close> returns the stored identifier when the context has a store
  whose slot holds a non-empty string, and the new UUID in every other case: a nil context,
  no store, no slot or nil in it, a value that is not a string, the empty string. The
  string of a UUID not being empty, the result never is.
\<close>

theorem GetRequestId_nonempty:
  assumes "uuid \<noteq> []"
  shows "GetRequestId uuid c w \<noteq> []
       \<and> (c = nil_context \<longrightarrow> GetRequestId uuid c w = uuid)
       \<and> (extract_ctx c = None \<longrightarrow> GetRequestId uuid c w = uuid)
       \<and> (\<forall>a. extract_ctx c = Some a \<longrightarrow>
            GetRequestId uuid c w
              = (case Value_Load (heap w a) RequestId of
                   Some (any_string v) \<Rightarrow> if v = [] then uuid else v
                 | _ \<Rightarrow> uuid))"
  using assms
  by (auto simp: GetRequestId_def extract_ctx_def split: option.splits any.splits Context.splits)

theorem GetRequestId_nonempty_witness:
  "GetRequestId ''123e4567-e89b-42d3-a456-426614174000'' nil_context example_world
     = ''123e4567-e89b-42d3-a456-426614174000''
   \<and> GetRequestId ''123e4567-e89b-42d3-a456-426614174000'' (ctx (Some 0))
       (example_world\<lparr>heap := (\<lambda>a. [RequestId \<mapsto> any_string ''req-1''])\<rparr>) = ''req-1''
   \<and> GetRequestId ''123e4567-e89b-42d3-a456-426614174000'' (ctx (Some 0))
       (example_world\<lparr>heap := (\<lambda>a. [RequestId \<mapsto> any_string []])\<rparr>)
     = ''123e4567-e89b-42d3-a456-426614174000''
   \<and> GetRequestId ''123e4567-e89b-42d3-a456-426614174000'' (ctx (Some 0))
       (example_world\<lparr>heap := (\<lambda>a. [RequestId \<mapsto> any_other 7])\<rparr>)
     = ''123e4567-e89b-42d3-a456-426614174000''"
  using GetRequestId_nonempty [of "''123e4567-e89b-42d3-a456-426614174000''" nil_context example_world]
        GetRequestId_nonempty [of "''123e4567-e89b-42d3-a456-426614174000''" "ctx (Some 0)"
          "example_world\<lparr>heap := (\<lambda>a. [RequestId \<mapsto> any_string ''req-1''])\<rparr>"]
        GetRequestId_nonempty [of "''123e4567-e89b-42d3-a456-426614174000''" "ctx (Some 0)"
          "example_world\<lparr>heap := (\<lambda>a. [RequestId \<mapsto> any_string []])\<rparr>"]
        GetRequestId_nonempty [of "''123e4567-e89b-42d3-a456-426614174000''" "ctx (Some 0)"
          "example_world\<lparr>heap := (\<lambda>a. [RequestId \<mapsto> any_other 7])\<rparr>"]
  by (simp add: extract_ctx_def Value_Load_def)

lemma append_log_two_steps:
  assumes "extract_ctx c = Some a"
  shows "heap (append_log lvl prefix c caller text w) a
         = fst (interleave (heap w a)
              [\<lparr>pending = [\<lparr>File = callerFile (fst caller) (snd caller), Level' = lvl,
                             Message' = text\<rparr>], holding = None\<rparr>] [0, 0])"
proof -
  from assms have "c \<noteq> nil_context" by (auto simp: extract_ctx_def)
  then show ?thesis using assms
    by (simp add: append_log_def Let_def goroutine_step_def split: prod.splits)
qed

text \<open>
  Claim C7 fails on the code. Two goroutines append one message each to an empty store.
  When both make their \<open>LoadAndDelete\<close> before either makes its \<open>Set\<close>, the second
  \<open>Set\<close> overwrites the first and one message is left, where the claim has two; when the
  calls follow one another both messages are kept. By \<open>append_log_two_steps\<close> these two
  accesses are what each call does.
\<close>

theorem concurrent_append_loses_entry:
  "interleave Map.empty [example_goroutine ''first'', example_goroutine ''second''] [0, 1, 0, 1]
     = ([LogMessages \<mapsto> any_messages [example_message ''second'']],
        [\<lparr>pending = [], holding = None\<rparr>, \<lparr>pending = [], holding = None\<rparr>])
   \<and> list_all finished (snd (interleave Map.empty
        [example_goroutine ''first'', example_goroutine ''second''] [0, 1, 0, 1]))
   \<and> length (stored_messages (fst (interleave Map.empty
        [example_goroutine ''first'', example_goroutine ''second''] [0, 1, 0, 1]))) = 1
   \<and> length (stored_messages (fst (interleave Map.empty
        [example_goroutine ''first'', example_goroutine ''second''] [0, 0, 1, 1]))) = 2"
  by (simp add: example_goroutine_def goroutine_step_def append_take_def append_set_def
        Value_LoadAndDelete_def Value_Set_def stored_messages_def finished_def Let_def)

end
